theory Spec2Isabelle
  imports Main "HOL-Library.Word" "HOL-Library.Multiset"
begin

section \<open>Poco::AtomicCounter\<close>

text \<open>
  A shallow embedding of \<^verbatim>\<open>include/Poco/AtomicCounter.h\<close>. The header holds three
  strategies, selected by the preprocessor: Windows (\<^verbatim>\<open>InterlockedIncrement\<close>), Mac OS X
  (\<^verbatim>\<open>OSAtomicIncrement32\<close>) and the generic one, a \<^verbatim>\<open>volatile int\<close> guarded by a
  \<^verbatim>\<open>FastMutex\<close>. The two native strategies have the same text up to the name of the
  primitive and are modelled once.
\<close>

subsection \<open>The data model\<close>

text \<open>
  \<^verbatim>\<open>typedef int ValueType\<close> (line 76). The native strategies store a \<^verbatim>\<open>LONG\<close> and an
  \<^verbatim>\<open>int32_t\<close>, both 32 bits wide, and \<^verbatim>\<open>int\<close> is 32 bits wide on every platform the
  header selects, so a value is a 32-bit word: \<open>+\<close> and \<open>-\<close> wrap around, \<open>sint\<close> reads
  the two's complement value. The native primitives wrap around by their definition.
  For the generic strategy's \<^verbatim>\<open>++\<close> and \<^verbatim>\<open>--\<close> on an \<^verbatim>\<open>int\<close> the C++ standard leaves
  signed overflow undefined; the model takes what the machine's arithmetic does, which
  is also what the spec describes.
\<close>

type_synonym ValueType = "32 word"

text \<open>
  Modelled from the spec: the guarding lock \<^verbatim>\<open>FastMutex\<close> and its
  \<^verbatim>\<open>FastMutex::ScopedLock\<close> are declared in \<^verbatim>\<open>Poco/Mutex.h\<close>, which is not among the
  sources. The spec describes a non-reentrant mutual-exclusion primitive with scoped
  acquire and release, released on every exit path, whose acquisition never fails. A
  mutex is free or held; acquiring a held mutex does not return (\<open>None\<close>) until the
  holder releases it.
\<close>

datatype FastMutex = Free | Held

definition lock :: "FastMutex \<Rightarrow> FastMutex option" where
  "lock m = (case m of Free \<Rightarrow> Some Held | Held \<Rightarrow> None)"

definition unlock :: "FastMutex \<Rightarrow> FastMutex" where
  "unlock m = Free"

text \<open>
  The generic \<^verbatim>\<open>struct ImplType { mutable FastMutex mutex; volatile int value; }\<close>
  (lines 124 to 128). The field \<^verbatim>\<open>value\<close> is named \<open>value_int\<close> here. The class has the
  single member \<^verbatim>\<open>ImplType _counter\<close>, so a counter object is its \<open>ImplType\<close>.
\<close>

record ImplType =
  mutex :: FastMutex
  value_int :: ValueType

type_synonym AtomicCounter = ImplType

text \<open>
  \<^verbatim>\<open>FastMutex::ScopedLock lock(_counter.mutex)\<close> acquires the counter's mutex when the
  block is entered; leaving the block destroys the lock object and releases the mutex.
\<close>

definition ScopedLock :: "AtomicCounter \<Rightarrow> AtomicCounter option" where
  "ScopedLock c = map_option (\<lambda>m. c\<lparr>mutex := m\<rparr>) (lock (mutex c))"

definition ScopedLock_release :: "AtomicCounter \<Rightarrow> AtomicCounter" where
  "ScopedLock_release c = c\<lparr>mutex := unlock (mutex c)\<rparr>"

subsection \<open>The generic strategy (lines 244 to 318)\<close>

text \<open>
  Every operation returns its result and the counter after the call; \<open>None\<close> stands
  for a call that does not return because the mutex is held. There is no other branch:
  the source has no \<^verbatim>\<open>throw\<close>, no error code and no check.
\<close>

text \<open>\<^verbatim>\<open>operator ValueType () const\<close>, lines 244 to 252.\<close>

definition operator_ValueType :: "AtomicCounter \<Rightarrow> (ValueType \<times> AtomicCounter) option" where
  "operator_ValueType c =
     (case ScopedLock c of
        None \<Rightarrow> None
      | Some c1 \<Rightarrow>
          (let result = value_int c1
           in Some (result, ScopedLock_release c1)))"

text \<open>\<^verbatim>\<open>ValueType value() const\<close>, lines 255 to 263.\<close>

definition value_get :: "AtomicCounter \<Rightarrow> (ValueType \<times> AtomicCounter) option" where
  "value_get c =
     (case ScopedLock c of
        None \<Rightarrow> None
      | Some c1 \<Rightarrow>
          (let result = value_int c1
           in Some (result, ScopedLock_release c1)))"

text \<open>\<^verbatim>\<open>operator ++ ()\<close>, prefix, lines 266 to 274: \<^verbatim>\<open>result = ++_counter.value\<close>.\<close>

definition operator_inc :: "AtomicCounter \<Rightarrow> (ValueType \<times> AtomicCounter) option" where
  "operator_inc c =
     (case ScopedLock c of
        None \<Rightarrow> None
      | Some c1 \<Rightarrow>
          (let c2 = c1\<lparr>value_int := value_int c1 + 1\<rparr>;
               result = value_int c2
           in Some (result, ScopedLock_release c2)))"

text \<open>\<^verbatim>\<open>operator ++ (int)\<close>, postfix, lines 277 to 285: \<^verbatim>\<open>result = _counter.value++\<close>.\<close>

definition operator_inc_post :: "AtomicCounter \<Rightarrow> (ValueType \<times> AtomicCounter) option" where
  "operator_inc_post c =
     (case ScopedLock c of
        None \<Rightarrow> None
      | Some c1 \<Rightarrow>
          (let result = value_int c1;
               c2 = c1\<lparr>value_int := value_int c1 + 1\<rparr>
           in Some (result, ScopedLock_release c2)))"

text \<open>\<^verbatim>\<open>operator -- ()\<close>, prefix, lines 288 to 296: \<^verbatim>\<open>result = --_counter.value\<close>.\<close>

definition operator_dec :: "AtomicCounter \<Rightarrow> (ValueType \<times> AtomicCounter) option" where
  "operator_dec c =
     (case ScopedLock c of
        None \<Rightarrow> None
      | Some c1 \<Rightarrow>
          (let c2 = c1\<lparr>value_int := value_int c1 - 1\<rparr>;
               result = value_int c2
           in Some (result, ScopedLock_release c2)))"

text \<open>\<^verbatim>\<open>operator -- (int)\<close>, postfix, lines 299 to 307: \<^verbatim>\<open>result = _counter.value--\<close>.\<close>

definition operator_dec_post :: "AtomicCounter \<Rightarrow> (ValueType \<times> AtomicCounter) option" where
  "operator_dec_post c =
     (case ScopedLock c of
        None \<Rightarrow> None
      | Some c1 \<Rightarrow>
          (let result = value_int c1;
               c2 = c1\<lparr>value_int := value_int c1 - 1\<rparr>
           in Some (result, ScopedLock_release c2)))"

text \<open>\<^verbatim>\<open>bool operator ! () const\<close>, lines 310 to 318.\<close>

definition operator_not :: "AtomicCounter \<Rightarrow> (bool \<times> AtomicCounter) option" where
  "operator_not c =
     (case ScopedLock c of
        None \<Rightarrow> None
      | Some c1 \<Rightarrow>
          (let result = (value_int c1 = 0)
           in Some (result, ScopedLock_release c1)))"

subsection \<open>The native strategies (lines 144 to 187 and 194 to 237)\<close>

text \<open>
  \<^verbatim>\<open>ImplType\<close> is \<^verbatim>\<open>volatile LONG\<close> on Windows and \<^verbatim>\<open>int32_t\<close> on Mac OS X: the counter is
  the 32-bit cell itself. \<^verbatim>\<open>InterlockedIncrement\<close> and \<^verbatim>\<open>OSAtomicIncrement32\<close> are
  primitives of the platform: in one indivisible step they add one to the cell and
  return the new value; \<^verbatim>\<open>InterlockedDecrement\<close> and \<^verbatim>\<open>OSAtomicDecrement32\<close> subtract one.
\<close>

type_synonym NativeCounter = "32 word"

definition InterlockedIncrement :: "NativeCounter \<Rightarrow> ValueType \<times> NativeCounter" where
  "InterlockedIncrement c = (c + 1, c + 1)"

definition InterlockedDecrement :: "NativeCounter \<Rightarrow> ValueType \<times> NativeCounter" where
  "InterlockedDecrement c = (c - 1, c - 1)"

text \<open>\<^verbatim>\<open>operator ValueType () const\<close>, lines 144 to 147 and 194 to 197.\<close>

definition native_operator_ValueType :: "NativeCounter \<Rightarrow> ValueType \<times> NativeCounter" where
  "native_operator_ValueType c = (c, c)"

text \<open>\<^verbatim>\<open>value() const\<close>, lines 150 to 153 and 200 to 203.\<close>

definition native_value_get :: "NativeCounter \<Rightarrow> ValueType \<times> NativeCounter" where
  "native_value_get c = (c, c)"

text \<open>Prefix \<^verbatim>\<open>operator ++ ()\<close>, lines 156 to 159 and 206 to 209.\<close>

definition native_operator_inc :: "NativeCounter \<Rightarrow> ValueType \<times> NativeCounter" where
  "native_operator_inc c = InterlockedIncrement c"

text \<open>
  Postfix \<^verbatim>\<open>operator ++ (int)\<close>, lines 162 to 167 and 212 to 217: the cell is read into
  \<^verbatim>\<open>result\<close>, then incremented, and the primitive's return value is dropped.
\<close>

definition native_operator_inc_post :: "NativeCounter \<Rightarrow> ValueType \<times> NativeCounter" where
  "native_operator_inc_post c =
     (let result = c;
          c1 = snd (InterlockedIncrement c)
      in (result, c1))"

text \<open>Prefix \<^verbatim>\<open>operator -- ()\<close>, lines 170 to 173 and 220 to 223.\<close>

definition native_operator_dec :: "NativeCounter \<Rightarrow> ValueType \<times> NativeCounter" where
  "native_operator_dec c = InterlockedDecrement c"

text \<open>Postfix \<^verbatim>\<open>operator -- (int)\<close>, lines 176 to 181 and 226 to 231.\<close>

definition native_operator_dec_post :: "NativeCounter \<Rightarrow> ValueType \<times> NativeCounter" where
  "native_operator_dec_post c =
     (let result = c;
          c1 = snd (InterlockedDecrement c)
      in (result, c1))"

text \<open>\<^verbatim>\<open>bool operator ! () const\<close>, lines 184 to 187 and 234 to 237.\<close>

definition native_operator_not :: "NativeCounter \<Rightarrow> bool \<times> NativeCounter" where
  "native_operator_not c = (c = 0, c)"

subsection \<open>Construction and assignment\<close>

text \<open>
  Modelled from the spec: the constructors (declared at lines 78 to 86) and the
  assignment operators (lines 91 to 95) are defined in \<^verbatim>\<open>AtomicCounter.cpp\<close>, which is not
  among the sources. The spec: \<^verbatim>\<open>construct()\<close> gives a new counter with value 0;
  \<^verbatim>\<open>construct(initial)\<close> gives a new counter with value \<^verbatim>\<open>initial\<close>; neither has a
  failure mode. A new counter's mutex is free.
\<close>

definition AtomicCounter_default :: AtomicCounter where
  "AtomicCounter_default = \<lparr>mutex = Free, value_int = 0\<rparr>"

definition AtomicCounter_init :: "ValueType \<Rightarrow> AtomicCounter" where
  "AtomicCounter_init initialValue = \<lparr>mutex = Free, value_int = initialValue\<rparr>"

text \<open>
  Modelled from the spec: the copy constructor (declared at line 85, defined in
  \<^verbatim>\<open>AtomicCounter.cpp\<close>) gives a new counter whose value equals the other counter's value
  at the instant of the copy, read as a single consistent snapshot, that is by the
  read operation \<^verbatim>\<open>value()\<close>. The result is the new counter and the other counter after
  the read.
\<close>

definition AtomicCounter_copy :: "AtomicCounter \<Rightarrow> (AtomicCounter \<times> AtomicCounter) option" where
  "AtomicCounter_copy other =
     (case value_get other of
        None \<Rightarrow> None
      | Some (v, other1) \<Rightarrow> Some (AtomicCounter_init v, other1))"

text \<open>
  Modelled from the spec: \<^verbatim>\<open>assign(value)\<close> (declared at line 94, defined in
  \<^verbatim>\<open>AtomicCounter.cpp\<close>) atomically sets the stored value, returns no value and always
  succeeds; under the lock-guarded strategy every operation acquires the guarding lock,
  performs the integer operation and releases the lock.
\<close>

definition assign_value :: "ValueType \<Rightarrow> AtomicCounter \<Rightarrow> AtomicCounter option" where
  "assign_value v c =
     (case ScopedLock c of
        None \<Rightarrow> None
      | Some c1 \<Rightarrow> Some (ScopedLock_release (c1\<lparr>value_int := v\<rparr>)))"

text \<open>
  Modelled from the spec: \<^verbatim>\<open>assign(other)\<close> (declared at line 91, defined in
  \<^verbatim>\<open>AtomicCounter.cpp\<close>) atomically sets the stored value to a snapshot of the other
  counter's current value. The result is the assigned counter and the other counter
  after the read; the two are different objects.
\<close>

definition assign_counter :: "AtomicCounter \<Rightarrow> AtomicCounter \<Rightarrow> (AtomicCounter \<times> AtomicCounter) option" where
  "assign_counter other c =
     (case value_get other of
        None \<Rightarrow> None
      | Some (v, other1) \<Rightarrow>
          (case assign_value v c of
             None \<Rightarrow> None
           | Some c1 \<Rightarrow> Some (c1, other1)))"

subsection \<open>Objects in a store\<close>

text \<open>
  Counters are objects with an identity: a store maps the address of each live
  counter to its state, and a member function called on the object at an address
  changes the store at that address only. Calling a member function where no object
  lives has no result.
\<close>

type_synonym address = nat

type_synonym store = "address \<rightharpoonup> AtomicCounter"

definition at_object ::
  "(AtomicCounter \<Rightarrow> ('r \<times> AtomicCounter) option) \<Rightarrow> address \<Rightarrow> store \<Rightarrow> ('r \<times> store) option" where
  "at_object f p st =
     (case st p of
        None \<Rightarrow> None
      | Some c \<Rightarrow>
          (case f c of
             None \<Rightarrow> None
           | Some (r, c1) \<Rightarrow> Some (r, st(p \<mapsto> c1))))"

text \<open>
  \<^verbatim>\<open>AtomicCounter b(a)\<close>: the object at \<open>a\<close> is read, and the new counter is placed at
  the address \<open>b\<close>, where no object lives yet.
\<close>

definition copy_construct_at :: "address \<Rightarrow> address \<Rightarrow> store \<Rightarrow> store option" where
  "copy_construct_at b a st =
     (case st b of
        Some _ \<Rightarrow> None
      | None \<Rightarrow>
          (case at_object AtomicCounter_copy a st of
             None \<Rightarrow> None
           | Some (cb, st1) \<Rightarrow> Some (st1(b \<mapsto> cb))))"

subsection \<open>Two's complement wrap-around\<close>

text \<open>
  The spec's words for overflow: the result of an increment or decrement is the
  mathematical result reduced modulo \<open>2 ^ 32\<close> into the signed range
  \<open>- 2 ^ 31 .. 2 ^ 31 - 1\<close>.
\<close>

definition wrap32 :: "int \<Rightarrow> int" where
  "wrap32 i = (i + 2 ^ 31) mod 2 ^ 32 - 2 ^ 31"

subsection \<open>Concurrent calls of the prefix increment\<close>

text \<open>
  Concurrent calls are interleavings of the indivisible steps of each call. A call of
  the generic \<^verbatim>\<open>operator ++ ()\<close> (lines 266 to 274) goes through these points:
  \<^item> \<open>Start\<close>: the call has been made; its next step constructs the \<^verbatim>\<open>ScopedLock\<close>,
    which is possible only while the mutex is free;
  \<^item> \<open>Locked\<close>: the mutex is held by this call; its next step loads \<^verbatim>\<open>_counter.value\<close>;
  \<^item> \<open>Loaded t\<close>: the loaded value is \<open>t\<close>; its next step stores \<open>t + 1\<close> to
    \<^verbatim>\<open>_counter.value\<close> and \<^verbatim>\<open>result\<close> becomes the new value;
  \<^item> \<open>Stored r\<close>: the next step leaves the block, which releases the mutex, and
    returns \<open>r\<close>;
  \<^item> \<open>Returned r\<close>: the call has returned \<open>r\<close>.
  The load and the store of \<^verbatim>\<open>++_counter.value\<close> are separate steps: only the mutex keeps
  another call from running between them.
\<close>

datatype call = Start | Locked | Loaded ValueType | Stored ValueType | Returned ValueType

fun inc_step :: "AtomicCounter \<Rightarrow> call \<Rightarrow> (AtomicCounter \<times> call) option" where
  "inc_step c Start = map_option (\<lambda>c1. (c1, Locked)) (ScopedLock c)"
| "inc_step c Locked = Some (c, Loaded (value_int c))"
| "inc_step c (Loaded t) = Some (c\<lparr>value_int := t + 1\<rparr>, Stored (t + 1))"
| "inc_step c (Stored r) = Some (ScopedLock_release c, Returned r)"
| "inc_step c (Returned r) = None"

text \<open>
  A call of the native \<^verbatim>\<open>operator ++ ()\<close> (lines 156 to 159 and 206 to 209) is the one
  indivisible step of the platform's primitive.
\<close>

fun native_inc_step :: "NativeCounter \<Rightarrow> call \<Rightarrow> (NativeCounter \<times> call) option" where
  "native_inc_step c Start = (case InterlockedIncrement c of (r, c1) \<Rightarrow> Some (c1, Returned r))"
| "native_inc_step c k = None"

text \<open>
  The system: the shared counter and the calls in flight. \<open>sys_step step i\<close> lets call
  \<open>i\<close> take its next step; it is \<open>None\<close> when there is no such call, when the call has
  returned, or when the call waits for the mutex. A schedule is the list of the calls
  that step, in order; \<open>run\<close> follows it, and is \<open>None\<close> for a schedule the system
  cannot follow. Calls issued one after another by the same thread are calls that
  never overlap, which only removes schedules.
\<close>

record 'c system =
  shared :: 'c
  calls :: "call list"

definition sys_step :: "('c \<Rightarrow> call \<Rightarrow> ('c \<times> call) option) \<Rightarrow> nat \<Rightarrow> 'c system \<Rightarrow> 'c system option" where
  "sys_step step i s =
     (if i < length (calls s)
      then (case step (shared s) (calls s ! i) of
              None \<Rightarrow> None
            | Some (c1, k1) \<Rightarrow> Some \<lparr>shared = c1, calls = (calls s)[i := k1]\<rparr>)
      else None)"

fun run :: "('c \<Rightarrow> call \<Rightarrow> ('c \<times> call) option) \<Rightarrow> nat list \<Rightarrow> 'c system \<Rightarrow> 'c system option" where
  "run step [] s = Some s"
| "run step (i # sched) s =
     (case sys_step step i s of
        None \<Rightarrow> None
      | Some s1 \<Rightarrow> run step sched s1)"

text \<open>\<open>N\<close> calls on a shared counter that starts at 0, none of which has begun.\<close>

definition init :: "nat \<Rightarrow> AtomicCounter system" where
  "init N = \<lparr>shared = \<lparr>mutex = Free, value_int = 0\<rparr>, calls = replicate N Start\<rparr>"

definition native_init :: "nat \<Rightarrow> NativeCounter system" where
  "native_init N = \<lparr>shared = 0, calls = replicate N Start\<rparr>"

fun is_Returned :: "call \<Rightarrow> bool" where
  "is_Returned (Returned r) = True"
| "is_Returned k = False"

definition all_returned :: "'c system \<Rightarrow> bool" where
  "all_returned s = list_all is_Returned (calls s)"

fun returned_of :: "call \<Rightarrow> ValueType list" where
  "returned_of (Returned r) = [r]"
| "returned_of k = []"

definition returned_values :: "'c system \<Rightarrow> ValueType list" where
  "returned_values s = concat (map returned_of (calls s))"

text \<open>
  The schedule that runs the calls one after another: call 0 takes its \<open>n\<close> steps,
  then call 1, and so on (\<open>n\<close> is 4 for the generic strategy and 1 for the native ones).
\<close>

definition sequential_schedule :: "nat \<Rightarrow> nat \<Rightarrow> nat list" where
  "sequential_schedule n N = concat (map (replicate n) [0..<N])"

subsection \<open>Invariants of the interleavings\<close>

text \<open>
  A call is in the critical section from the step that acquires the mutex to the step
  that releases it.
\<close>

fun in_section :: "call \<Rightarrow> bool" where
  "in_section Start = False"
| "in_section Locked = True"
| "in_section (Loaded t) = True"
| "in_section (Stored r) = True"
| "in_section (Returned r) = False"

text \<open>
  The result of a call is fixed once the call has stored the new value: \<open>committed\<close> is
  the result of such a call, and \<open>results\<close> collects them over the calls in flight.
\<close>

fun committed :: "call \<Rightarrow> ValueType multiset" where
  "committed (Stored r) = {#r#}"
| "committed (Returned r) = {#r#}"
| "committed k = {#}"

definition results :: "call multiset \<Rightarrow> ValueType multiset" where
  "results M = sum_mset (image_mset committed M)"

text \<open>A call that has loaded the counter's value holds the value the counter has now.\<close>

fun loaded_ok :: "ValueType \<Rightarrow> call \<Rightarrow> bool" where
  "loaded_ok v (Loaded t) = (t = v)"
| "loaded_ok v k = True"

text \<open>The values \<open>1, 2, ..., n\<close> as 32-bit values.\<close>

definition first_values :: "nat \<Rightarrow> ValueType multiset" where
  "first_values n = mset (map of_nat [1..<Suc n])"

text \<open>
  No update is lost and no value is handed out twice: when \<open>n\<close> calls have stored, the
  counter holds \<open>n\<close> and their results are \<open>1, ..., n\<close>.
\<close>

definition counted :: "ValueType \<Rightarrow> call multiset \<Rightarrow> bool" where
  "counted v M \<longleftrightarrow> (\<exists>n. results M = first_values n \<and> v = of_nat n)"

text \<open>
  The invariant of the generic strategy: the mutex is held exactly while one call is in
  the critical section, and there is never more than one.
\<close>

definition guarded :: "AtomicCounter \<Rightarrow> call multiset \<Rightarrow> bool" where
  "guarded c M \<longleftrightarrow>
     size (filter_mset in_section M) = (case mutex c of Free \<Rightarrow> 0 | Held \<Rightarrow> 1)
     \<and> (\<forall>k \<in># M. loaded_ok (value_int c) k)
     \<and> counted (value_int c) M"

text \<open>The invariant of the native strategies: a call has not begun or has returned.\<close>

definition native_ok :: "NativeCounter \<Rightarrow> call multiset \<Rightarrow> bool" where
  "native_ok c M \<longleftrightarrow> counted c M \<and> (\<forall>k \<in># M. k = Start \<or> is_Returned k)"

text \<open>The number of steps a call still has to take, and their sum over the calls.\<close>

fun steps_left :: "call \<Rightarrow> nat" where
  "steps_left Start = 4"
| "steps_left Locked = 3"
| "steps_left (Loaded t) = 2"
| "steps_left (Stored r) = 1"
| "steps_left (Returned r) = 0"

definition remaining :: "'c system \<Rightarrow> nat" where
  "remaining s = sum_list (map steps_left (calls s))"

section \<open>Sequential behaviour of the operations\<close>

lemma ScopedLock_Free: "mutex c = Free \<Longrightarrow> ScopedLock c = Some (c\<lparr>mutex := Held\<rparr>)"
  by (simp add: ScopedLock_def lock_def)

lemma release_after_lock:
  "mutex c = Free \<Longrightarrow> ScopedLock_release (c\<lparr>mutex := Held, value_int := v\<rparr>) = c\<lparr>value_int := v\<rparr>"
  by (simp add: ScopedLock_release_def unlock_def)

lemma release_after_lock_same:
  "mutex c = Free \<Longrightarrow> ScopedLock_release (c\<lparr>mutex := Held\<rparr>) = c"
  by (simp add: ScopedLock_release_def unlock_def)

text \<open>
  Called while the mutex is free, that is while no other call on the counter is in
  progress, every operation of the generic strategy returns, with the mutex free again.
\<close>

lemma generic_ops:
  assumes "mutex c = Free"
  shows "operator_ValueType c = Some (value_int c, c)"
    "value_get c = Some (value_int c, c)"
    "operator_inc c = Some (value_int c + 1, c\<lparr>value_int := value_int c + 1\<rparr>)"
    "operator_inc_post c = Some (value_int c, c\<lparr>value_int := value_int c + 1\<rparr>)"
    "operator_dec c = Some (value_int c - 1, c\<lparr>value_int := value_int c - 1\<rparr>)"
    "operator_dec_post c = Some (value_int c, c\<lparr>value_int := value_int c - 1\<rparr>)"
    "operator_not c = Some (value_int c = 0, c)"
    "assign_value v c = Some (c\<lparr>value_int := v\<rparr>)"
  using assms
  by (simp_all add: operator_ValueType_def value_get_def operator_inc_def operator_inc_post_def
      operator_dec_def operator_dec_post_def operator_not_def assign_value_def
      ScopedLock_Free release_after_lock release_after_lock_same)

lemma native_ops:
  "native_operator_ValueType c = (c, c)"
  "native_value_get c = (c, c)"
  "native_operator_inc c = (c + 1, c + 1)"
  "native_operator_inc_post c = (c, c + 1)"
  "native_operator_dec c = (c - 1, c - 1)"
  "native_operator_dec_post c = (c, c - 1)"
  "native_operator_not c = (c = 0, c)"
  by (simp_all add: native_operator_ValueType_def native_value_get_def native_operator_inc_def
      native_operator_inc_post_def native_operator_dec_def native_operator_dec_post_def
      native_operator_not_def InterlockedIncrement_def InterlockedDecrement_def)

lemma sint_inc: "sint (v + 1 :: 32 word) = wrap32 (sint v + 1)"
  by (simp add: wrap32_def sint_word_ariths signed_take_bit_eq_take_bit_shift take_bit_eq_mod)

lemma sint_dec: "sint (v - 1 :: 32 word) = wrap32 (sint v - 1)"
  by (simp add: wrap32_def sint_word_ariths signed_take_bit_eq_take_bit_shift take_bit_eq_mod)

lemma sint_of_int_range:
  assumes "- (2 ^ 31) \<le> i" "i < 2 ^ 31"
  shows "sint (word_of_int i :: 32 word) = i"
proof -
  have "0 \<le> i + 2 ^ 31" "i + 2 ^ 31 < 2 ^ 32"
    using assms by simp_all
  then have "(i + 2 ^ 31) mod 2 ^ 32 = i + 2 ^ 31"
    by (rule mod_pos_pos_trivial)
  then show ?thesis
    by (simp add: int_word_sint)
qed

lemma sint_inc_small:
  fixes v :: "32 word"
  assumes "sint v < 2 ^ 31 - 1"
  shows "sint (v + 1) = sint v + 1"
proof -
  have "- (2 ^ 31) \<le> sint v"
    using sint_ge [of v] by simp
  with assms have "0 \<le> sint v + 1 + 2 ^ 31" and "sint v + 1 + 2 ^ 31 < 2 ^ 32"
    by simp_all
  then have "(sint v + 1 + 2 ^ 31) mod 2 ^ 32 = sint v + 1 + 2 ^ 31"
    by (rule mod_pos_pos_trivial)
  then show ?thesis
    by (simp add: sint_inc wrap32_def)
qed

lemma sint_dec_small:
  fixes v :: "32 word"
  assumes "- (2 ^ 31) < sint v"
  shows "sint (v - 1) = sint v - 1"
proof -
  have "sint v < 2 ^ 31"
    using sint_lt [of v] by simp
  with assms have "0 \<le> sint v - 1 + 2 ^ 31" and "sint v - 1 + 2 ^ 31 < 2 ^ 32"
    by simp_all
  then have "(sint v - 1 + 2 ^ 31) mod 2 ^ 32 = sint v - 1 + 2 ^ 31"
    by (rule mod_pos_pos_trivial)
  then show ?thesis
    by (simp add: sint_dec wrap32_def)
qed

lemma at_object_frame:
  assumes "at_object f a st = Some (r, st1)" and "b \<noteq> a"
  shows "st1 b = st b"
  using assms by (auto simp: at_object_def split: option.splits)

section \<open>Interleavings of the prefix increment\<close>

subsection \<open>Each step keeps the invariant\<close>

lemma results_add [simp]: "results (add_mset k M) = committed k + results M"
  by (simp add: results_def)

lemma results_empty [simp]: "results {#} = {#}"
  by (simp add: results_def)

lemma first_values_Suc: "first_values (Suc n) = add_mset (of_nat (Suc n)) (first_values n)"
  by (simp add: first_values_def)

lemma size_first_values [simp]: "size (first_values n) = n"
  by (simp add: first_values_def)

lemma counted_commit:
  assumes "counted v (add_mset k M)" and "committed k = {#}" and "committed k1 = {#v + 1#}"
  shows "counted (v + 1) (add_mset k1 M)"
proof -
  from assms(1,2) obtain n where n: "results M = first_values n" "v = of_nat n"
    by (auto simp: counted_def)
  then have "results (add_mset k1 M) = first_values (Suc n) \<and> v + 1 = of_nat (Suc n)"
    using assms(3) by (simp add: first_values_Suc)
  then show ?thesis
    unfolding counted_def by blast
qed

lemma no_section_loaded_ok:
  assumes "size (filter_mset in_section M) = 0" and "k \<in># M"
  shows "loaded_ok v k"
proof -
  from assms have "\<not> in_section k"
    by (simp add: filter_mset_eq_mempty_iff)
  then show ?thesis
    by (cases k) simp_all
qed

lemma guarded_section:
  assumes "guarded c (add_mset k M)" and "in_section k"
  shows "mutex c = Held" and "size (filter_mset in_section M) = 0"
  using assms by (cases "mutex c"; simp add: guarded_def)+

lemma inc_step_guarded:
  assumes "inc_step c k = Some (c1, k1)" and "guarded c (add_mset k M)"
  shows "guarded c1 (add_mset k1 M)"
proof (cases k)
  case Start
  with assms have "mutex c = Free" and "c1 = c\<lparr>mutex := Held\<rparr>" and "k1 = Locked"
    by (cases "mutex c"; auto simp: ScopedLock_def lock_def)+
  with assms(2) Start show ?thesis
    by (simp add: guarded_def counted_def)
next
  case Locked
  with assms have c1: "c1 = c" and k1: "k1 = Loaded (value_int c)"
    by auto
  from assms(2) Locked c1 k1 show ?thesis
    by (simp add: guarded_def counted_def)
next
  case (Loaded t)
  with assms have tv: "t = value_int c" and c1: "c1 = c\<lparr>value_int := t + 1\<rparr>" and k1: "k1 = Stored (t + 1)"
    by (auto simp: guarded_def)
  from assms(2) Loaded have held: "mutex c = Held" and none: "size (filter_mset in_section M) = 0"
    by (simp_all add: guarded_section)
  from assms(2) have "counted (value_int c) (add_mset k M)"
    by (simp add: guarded_def)
  with Loaded have cnt: "counted (value_int c) (add_mset (Loaded t) M)"
    by simp
  have "counted (value_int c + 1) (add_mset (Stored (value_int c + 1)) M)"
    by (rule counted_commit [OF cnt]) simp_all
  with tv c1 k1 held none no_section_loaded_ok [OF none] show ?thesis
    by (simp add: guarded_def)
next
  case (Stored r)
  with assms have c1: "c1 = ScopedLock_release c" and k1: "k1 = Returned r"
    by auto
  from assms(2) Stored have held: "mutex c = Held" and none: "size (filter_mset in_section M) = 0"
    by (simp_all add: guarded_section)
  from assms(2) have "counted (value_int c) (add_mset k M)"
    by (simp add: guarded_def)
  with Stored have "counted (value_int c) (add_mset (Returned r) M)"
    by (simp add: counted_def)
  with c1 k1 held none no_section_loaded_ok [OF none] show ?thesis
    by (simp add: guarded_def ScopedLock_release_def unlock_def)
next
  case (Returned r)
  with assms show ?thesis by simp
qed

lemma native_inc_step_ok:
  assumes "native_inc_step c k = Some (c1, k1)" and "native_ok c (add_mset k M)"
  shows "native_ok c1 (add_mset k1 M)"
proof -
  from assms(1) have k: "k = Start" and c1: "c1 = c + 1" and k1: "k1 = Returned (c + 1)"
    by (cases k; simp add: InterlockedIncrement_def)+
  from assms(2) k have "counted c (add_mset Start M)"
    by (simp add: native_ok_def)
  then have "counted (c + 1) (add_mset (Returned (c + 1)) M)"
    by (rule counted_commit) simp_all
  with assms(2) c1 k1 show ?thesis
    by (simp add: native_ok_def)
qed

lemma sys_step_cases:
  assumes "sys_step step i s = Some s1"
  obtains c1 k1 where "i < length (calls s)" and "step (shared s) (calls s ! i) = Some (c1, k1)"
    and "s1 = \<lparr>shared = c1, calls = (calls s)[i := k1]\<rparr>"
  using assms by (auto simp: sys_step_def split: if_splits option.splits)

lemma sys_step_preserves:
  assumes step: "\<And>c k c1 k1 M. step c k = Some (c1, k1) \<Longrightarrow> P c (add_mset k M) \<Longrightarrow> P c1 (add_mset k1 M)"
    and "sys_step step i s = Some s1" and "P (shared s) (mset (calls s))"
  shows "P (shared s1) (mset (calls s1))"
proof -
  from assms(2) obtain c1 k1 where i: "i < length (calls s)"
    and st: "step (shared s) (calls s ! i) = Some (c1, k1)"
    and s1: "s1 = \<lparr>shared = c1, calls = (calls s)[i := k1]\<rparr>"
    by (rule sys_step_cases)
  define M where "M = mset (calls s) - {#calls s ! i#}"
  from i have old: "mset (calls s) = add_mset (calls s ! i) M"
    by (simp add: M_def)
  from i have new: "mset ((calls s)[i := k1]) = add_mset k1 M"
    by (simp add: M_def mset_update)
  from assms(3) old have "P (shared s) (add_mset (calls s ! i) M)"
    by simp
  with st have "P c1 (add_mset k1 M)"
    by (rule step)
  with s1 new show ?thesis
    by simp
qed

lemma sys_step_length:
  assumes "sys_step step i s = Some s1"
  shows "length (calls s1) = length (calls s)"
  using assms by (rule sys_step_cases) simp

lemma run_preserves:
  assumes step: "\<And>c k c1 k1 M. step c k = Some (c1, k1) \<Longrightarrow> P c (add_mset k M) \<Longrightarrow> P c1 (add_mset k1 M)"
  shows "run step sched s = Some s1 \<Longrightarrow> P (shared s) (mset (calls s)) \<Longrightarrow> P (shared s1) (mset (calls s1))"
proof (induction sched arbitrary: s)
  case Nil
  then show ?case by simp
next
  case (Cons i sched)
  from Cons.prems(1) obtain s2 where s2: "sys_step step i s = Some s2" and r: "run step sched s2 = Some s1"
    by (auto split: option.splits)
  from step s2 Cons.prems(2) have "P (shared s2) (mset (calls s2))"
    by (rule sys_step_preserves)
  with r show ?case
    by (rule Cons.IH)
qed

lemma run_length:
  "run step sched s = Some s1 \<Longrightarrow> length (calls s1) = length (calls s)"
proof (induction sched arbitrary: s)
  case Nil
  then show ?case by simp
next
  case (Cons i sched)
  then show ?case
    by (auto split: option.splits dest: sys_step_length)
qed

lemma run_append:
  "run step (xs @ ys) s = (case run step xs s of None \<Rightarrow> None | Some s1 \<Rightarrow> run step ys s1)"
  by (induction xs arbitrary: s) (simp_all split: option.splits)

lemma results_replicate_Start: "results (replicate_mset N Start) = {#}"
  by (induction N) simp_all

lemma section_replicate_Start: "filter_mset in_section (replicate_mset N Start) = {#}"
  by (induction N) simp_all

lemma counted_zero: "counted 0 (replicate_mset N Start)"
proof -
  have "results (replicate_mset N Start) = first_values 0 \<and> (0 :: ValueType) = of_nat 0"
    by (simp add: results_replicate_Start first_values_def)
  then show ?thesis
    unfolding counted_def by blast
qed

lemma init_guarded: "guarded (shared (init N)) (mset (calls (init N)))"
proof -
  have "loaded_ok 0 k" if "k \<in># replicate_mset N Start" for k
    using that by (simp add: in_replicate_mset split: if_splits)
  then show ?thesis
    by (simp add: init_def guarded_def section_replicate_Start counted_zero)
qed

lemma native_init_ok: "native_ok (shared (native_init N)) (mset (calls (native_init N)))"
proof -
  have "k = Start \<or> is_Returned k" if "k \<in># replicate_mset N Start" for k
    using that by (simp add: in_replicate_mset split: if_splits)
  then show ?thesis
    by (simp add: native_init_def native_ok_def counted_zero)
qed

lemma results_all_returned:
  "list_all is_Returned ks \<Longrightarrow> results (mset ks) = mset (concat (map returned_of ks))"
proof (induction ks)
  case Nil
  then show ?case by simp
next
  case (Cons k ks)
  then show ?case by (cases k) simp_all
qed

lemma length_all_returned:
  "list_all is_Returned ks \<Longrightarrow> length (concat (map returned_of ks)) = length ks"
proof (induction ks)
  case Nil
  then show ?case by simp
next
  case (Cons k ks)
  then show ?case by (cases k) simp_all
qed

lemma counted_final:
  assumes "counted v (mset (calls s))" and "all_returned s"
  shows "v = of_nat (length (calls s))"
    and "mset (returned_values s) = first_values (length (calls s))"
proof -
  from assms(2) have res: "results (mset (calls s)) = mset (returned_values s)"
    and len: "length (returned_values s) = length (calls s)"
    by (simp_all add: all_returned_def returned_values_def results_all_returned length_all_returned)
  from assms(1) obtain n where n: "results (mset (calls s)) = first_values n" "v = of_nat n"
    by (auto simp: counted_def)
  from n(1) res have "size (mset (returned_values s)) = size (first_values n)"
    by simp
  with len have "n = length (calls s)"
    by simp
  with n res show "v = of_nat (length (calls s))"
    and "mset (returned_values s) = first_values (length (calls s))"
    by simp_all
qed

lemma sint_of_nat_small:
  assumes "n < 2 ^ 31"
  shows "sint (of_nat n :: 32 word) = int n"
proof -
  have "sint (word_of_int (int n) :: 32 word) = int n"
    using assms by (intro sint_of_int_range) simp_all
  then show ?thesis by simp
qed

lemma sorted_first_values:
  assumes "mset rs = first_values N" and "N < 2 ^ 31"
  shows "sort (map sint rs) = map int [1..<Suc N]"
proof (rule properties_for_sort)
  have "mset (map sint rs) = image_mset sint (mset (map (of_nat :: nat \<Rightarrow> ValueType) [1..<Suc N]))"
    using assms(1) by (simp add: first_values_def del: upt_Suc)
  also have "\<dots> = mset (map (\<lambda>i. sint (of_nat i :: 32 word)) [1..<Suc N])"
    by (simp add: comp_def multiset.map_comp del: upt_Suc)
  also have "map (\<lambda>i. sint (of_nat i :: 32 word)) [1..<Suc N] = map int [1..<Suc N]"
    using assms(2) by (intro map_cong refl sint_of_nat_small) (simp del: upt_Suc)
  finally show "mset (map int [1..<Suc N]) = mset (map sint rs)"
    by simp
  show "sorted (map int [1..<Suc N])"
    by (simp add: sorted_map del: upt_Suc)
qed

subsection \<open>Every interleaving can be completed\<close>

lemma inc_step_decreases:
  "inc_step c k = Some (c1, k1) \<Longrightarrow> steps_left k = Suc (steps_left k1)"
  by (cases k) auto

lemma native_inc_step_decreases:
  "native_inc_step c k = Some (c1, k1) \<Longrightarrow> steps_left k1 < steps_left k"
  by (cases k) (auto simp: InterlockedIncrement_def)

lemma sum_list_update_less:
  fixes f :: "'a \<Rightarrow> nat"
  assumes "i < length xs" and "f y < f (xs ! i)"
  shows "sum_list (map f (xs[i := y])) < sum_list (map f xs)"
  using assms
proof (induction xs arbitrary: i)
  case Nil
  then show ?case by simp
next
  case (Cons x xs)
  then show ?case by (cases i) auto
qed

lemma sys_step_remaining:
  assumes dec: "\<And>c k c1 k1. step c k = Some (c1, k1) \<Longrightarrow> steps_left k1 < steps_left k"
    and "sys_step step i s = Some s1"
  shows "remaining s1 < remaining s"
proof -
  from assms(2) obtain c1 k1 where i: "i < length (calls s)"
    and st: "step (shared s) (calls s ! i) = Some (c1, k1)"
    and s1: "s1 = \<lparr>shared = c1, calls = (calls s)[i := k1]\<rparr>"
    by (rule sys_step_cases)
  from st have "steps_left k1 < steps_left (calls s ! i)"
    by (rule dec)
  with i s1 show ?thesis
    by (simp add: remaining_def sum_list_update_less)
qed

lemma guarded_enabled:
  assumes "guarded c (mset ks)" and "\<not> list_all is_Returned ks"
  shows "\<exists>i c1 k1. i < length ks \<and> inc_step c (ks ! i) = Some (c1, k1)"
proof (cases "mutex c")
  case Free
  from assms(2) obtain k where k: "k \<in> set ks" "\<not> is_Returned k"
    by (auto simp: list_all_iff)
  from assms(1) Free have "filter_mset in_section (mset ks) = {#}"
    by (simp add: guarded_def)
  with k(1) have "\<not> in_section k"
    by (auto simp: filter_mset_eq_mempty_iff)
  with k(2) have "k = Start"
    by (cases k) simp_all
  with Free have "inc_step c k = Some (c\<lparr>mutex := Held\<rparr>, Locked)"
    by (simp add: ScopedLock_Free)
  with k(1) show ?thesis
    by (auto simp: in_set_conv_nth)
next
  case Held
  with assms(1) have "size (filter_mset in_section (mset ks)) = 1"
    by (simp add: guarded_def)
  then have "filter_mset in_section (mset ks) \<noteq> {#}"
    by (intro notI) simp
  then obtain k where k: "k \<in> set ks" "in_section k"
    unfolding filter_mset_eq_mempty_iff by auto
  from k(2) have "\<exists>c1 k1. inc_step c k = Some (c1, k1)"
    by (cases k) simp_all
  with k(1) show ?thesis
    by (auto simp: in_set_conv_nth)
qed

lemma native_enabled:
  assumes "native_ok c (mset ks)" and "\<not> list_all is_Returned ks"
  shows "\<exists>i c1 k1. i < length ks \<and> native_inc_step c (ks ! i) = Some (c1, k1)"
proof -
  from assms(2) obtain k where k: "k \<in> set ks" "\<not> is_Returned k"
    by (auto simp: list_all_iff)
  with assms(1) have "k = Start"
    by (auto simp: native_ok_def)
  then have "native_inc_step c k = Some (c + 1, Returned (c + 1))"
    by (simp add: InterlockedIncrement_def)
  with k(1) show ?thesis
    by (auto simp: in_set_conv_nth)
qed

lemma sys_step_enabled:
  assumes "i < length (calls s)" and "step (shared s) (calls s ! i) = Some (c1, k1)"
  shows "\<exists>s1. sys_step step i s = Some s1"
  using assms by (simp add: sys_step_def)

lemma completes:
  assumes step: "\<And>c k c1 k1 M. step c k = Some (c1, k1) \<Longrightarrow> P c (add_mset k M) \<Longrightarrow> P c1 (add_mset k1 M)"
    and dec: "\<And>c k c1 k1. step c k = Some (c1, k1) \<Longrightarrow> steps_left k1 < steps_left k"
    and enabled: "\<And>c ks. P c (mset ks) \<Longrightarrow> \<not> list_all is_Returned ks \<Longrightarrow>
        \<exists>i c1 k1. i < length ks \<and> step c (ks ! i) = Some (c1, k1)"
  shows "P (shared s) (mset (calls s)) \<Longrightarrow> \<exists>sched s1. run step sched s = Some s1 \<and> all_returned s1"
proof (induction "remaining s" arbitrary: s rule: less_induct)
  case less
  show ?case
  proof (cases "all_returned s")
    case True
    then have "run step [] s = Some s \<and> all_returned s"
      by simp
    then show ?thesis by blast
  next
    case False
    then have "\<not> list_all is_Returned (calls s)"
      by (simp add: all_returned_def)
    with less.prems obtain i c1 k1 where "i < length (calls s)"
      and "step (shared s) (calls s ! i) = Some (c1, k1)"
      using enabled by blast
    then have "\<exists>s1. sys_step step i s = Some s1"
      by (rule sys_step_enabled)
    then obtain s1 where s1: "sys_step step i s = Some s1"
      by blast
    from dec s1 have "remaining s1 < remaining s"
      by (rule sys_step_remaining)
    moreover from step s1 less.prems have "P (shared s1) (mset (calls s1))"
      by (rule sys_step_preserves)
    ultimately obtain sched s2 where "run step sched s1 = Some s2" and "all_returned s2"
      using less.hyps by blast
    with s1 have "run step (i # sched) s = Some s2 \<and> all_returned s2"
      by simp
    then show ?thesis by blast
  qed
qed

lemma inc_step_less: "inc_step c k = Some (c1, k1) \<Longrightarrow> steps_left k1 < steps_left k"
  by (drule inc_step_decreases) simp

lemma generic_completes:
  assumes "run inc_step sched (init N) = Some s"
  shows "\<exists>sched1 s1. run inc_step sched1 s = Some s1 \<and> all_returned s1"
proof -
  have "guarded (shared s) (mset (calls s))"
    using inc_step_guarded assms init_guarded by (rule run_preserves)
  with inc_step_guarded inc_step_less guarded_enabled show ?thesis
    by (rule completes)
qed

lemma native_completes:
  assumes "run native_inc_step sched (native_init N) = Some s"
  shows "\<exists>sched1 s1. run native_inc_step sched1 s = Some s1 \<and> all_returned s1"
proof -
  have "native_ok (shared s) (mset (calls s))"
    using native_inc_step_ok assms native_init_ok by (rule run_preserves)
  with native_inc_step_ok native_inc_step_decreases native_enabled show ?thesis
    by (rule completes)
qed

lemma generic_final:
  assumes "run inc_step sched (init N) = Some s" and "all_returned s"
  shows "value_int (shared s) = of_nat N" and "mset (returned_values s) = first_values N"
proof -
  have "guarded (shared s) (mset (calls s))"
    using inc_step_guarded assms(1) init_guarded by (rule run_preserves)
  then have c: "counted (value_int (shared s)) (mset (calls s))"
    by (simp add: guarded_def)
  from assms(1) have len: "length (calls s) = N"
    by (simp add: run_length init_def)
  from counted_final [OF c assms(2)] len
  show "value_int (shared s) = of_nat N" and "mset (returned_values s) = first_values N"
    by simp_all
qed

lemma native_final:
  assumes "run native_inc_step sched (native_init N) = Some s" and "all_returned s"
  shows "shared s = of_nat N" and "mset (returned_values s) = first_values N"
proof -
  have "native_ok (shared s) (mset (calls s))"
    using native_inc_step_ok assms(1) native_init_ok by (rule run_preserves)
  then have c: "counted (shared s) (mset (calls s))"
    by (simp add: native_ok_def)
  from assms(1) have len: "length (calls s) = N"
    by (simp add: run_length native_init_def)
  from counted_final [OF c assms(2)] len
  show "shared s = of_nat N" and "mset (returned_values s) = first_values N"
    by simp_all
qed

subsection \<open>The calls one after another\<close>

text \<open>
  A single call, stepped to its end, is the sequential operation: the steps of
  \<open>inc_step\<close> compose to \<open>operator_inc\<close>.
\<close>

lemma inc_step_operator_inc:
  "run inc_step [0, 0, 0, 0] \<lparr>shared = c, calls = [Start]\<rparr>
   = map_option (\<lambda>(r, c1). \<lparr>shared = c1, calls = [Returned r]\<rparr>) (operator_inc c)"
  by (cases "mutex c")
    (simp_all add: sys_step_def operator_inc_def ScopedLock_def lock_def ScopedLock_release_def)

lemma native_inc_step_operator_inc:
  "run native_inc_step [0] \<lparr>shared = c, calls = [Start]\<rparr>
   = Some \<lparr>shared = snd (native_operator_inc c), calls = [Returned (fst (native_operator_inc c))]\<rparr>"
  by (simp add: sys_step_def native_operator_inc_def InterlockedIncrement_def)

lemma replicate_4: "replicate 4 i = [i, i, i, i]"
  by (simp add: numeral_eq_Suc)

lemma run_one_call:
  "run inc_step [length ds, length ds, length ds, length ds]
     \<lparr>shared = \<lparr>mutex = Free, value_int = v\<rparr>, calls = ds @ Start # rest\<rparr>
   = Some \<lparr>shared = \<lparr>mutex = Free, value_int = v + 1\<rparr>, calls = ds @ Returned (v + 1) # rest\<rparr>"
  by (simp add: sys_step_def ScopedLock_def lock_def ScopedLock_release_def unlock_def)

lemma native_run_one_call:
  "run native_inc_step [length ds] \<lparr>shared = v, calls = ds @ Start # rest\<rparr>
   = Some \<lparr>shared = v + 1, calls = ds @ Returned (v + 1) # rest\<rparr>"
  by (simp add: sys_step_def InterlockedIncrement_def)

lemma run_sequential:
  "run inc_step (concat (map (replicate 4) [length ds..<length ds + m]))
     \<lparr>shared = \<lparr>mutex = Free, value_int = v\<rparr>, calls = ds @ replicate m Start\<rparr>
   = Some \<lparr>shared = \<lparr>mutex = Free, value_int = v + of_nat m\<rparr>,
           calls = ds @ map (\<lambda>j. Returned (v + of_nat (Suc j))) [0..<m]\<rparr>"
proof (induction m arbitrary: ds v)
  case 0
  then show ?case by simp
next
  case (Suc m)
  have sched: "concat (map (replicate 4) [length ds..<length ds + Suc m])
      = [length ds, length ds, length ds, length ds]
        @ concat (map (replicate 4) [length (ds @ [Returned (v + 1)])..<length (ds @ [Returned (v + 1)]) + m])"
    by (simp add: upt_conv_Cons replicate_4 del: upt_Suc)
  have "run inc_step (concat (map (replicate 4) [length ds..<length ds + Suc m]))
          \<lparr>shared = \<lparr>mutex = Free, value_int = v\<rparr>, calls = ds @ replicate (Suc m) Start\<rparr>
      = run inc_step (concat (map (replicate 4) [length (ds @ [Returned (v + 1)])..<length (ds @ [Returned (v + 1)]) + m]))
          \<lparr>shared = \<lparr>mutex = Free, value_int = v + 1\<rparr>, calls = (ds @ [Returned (v + 1)]) @ replicate m Start\<rparr>"
    unfolding sched run_append
    using run_one_call [of ds v "replicate m Start"] by simp
  also have "\<dots> = Some \<lparr>shared = \<lparr>mutex = Free, value_int = v + 1 + of_nat m\<rparr>,
           calls = (ds @ [Returned (v + 1)]) @ map (\<lambda>j. Returned (v + 1 + of_nat (Suc j))) [0..<m]\<rparr>"
    by (rule Suc.IH)
  also have "\<dots> = Some \<lparr>shared = \<lparr>mutex = Free, value_int = v + of_nat (Suc m)\<rparr>,
           calls = ds @ map (\<lambda>j. Returned (v + of_nat (Suc j))) [0..<Suc m]\<rparr>"
    by (simp add: map_upt_Suc add.assoc add.commute del: upt_Suc)
  finally show ?case .
qed

lemma native_run_sequential:
  "run native_inc_step (concat (map (replicate 1) [length ds..<length ds + m]))
     \<lparr>shared = v, calls = ds @ replicate m Start\<rparr>
   = Some \<lparr>shared = v + of_nat m,
           calls = ds @ map (\<lambda>j. Returned (v + of_nat (Suc j))) [0..<m]\<rparr>"
proof (induction m arbitrary: ds v)
  case 0
  then show ?case by simp
next
  case (Suc m)
  have sched: "concat (map (replicate 1) [length ds..<length ds + Suc m])
      = [length ds]
        @ concat (map (replicate 1) [length (ds @ [Returned (v + 1)])..<length (ds @ [Returned (v + 1)]) + m])"
    by (simp add: upt_conv_Cons del: upt_Suc)
  have "run native_inc_step (concat (map (replicate 1) [length ds..<length ds + Suc m]))
          \<lparr>shared = v, calls = ds @ replicate (Suc m) Start\<rparr>
      = run native_inc_step (concat (map (replicate 1) [length (ds @ [Returned (v + 1)])..<length (ds @ [Returned (v + 1)]) + m]))
          \<lparr>shared = v + 1, calls = (ds @ [Returned (v + 1)]) @ replicate m Start\<rparr>"
    unfolding sched run_append
    using native_run_one_call [of ds v "replicate m Start"] by simp
  also have "\<dots> = Some \<lparr>shared = v + 1 + of_nat m,
           calls = (ds @ [Returned (v + 1)]) @ map (\<lambda>j. Returned (v + 1 + of_nat (Suc j))) [0..<m]\<rparr>"
    by (rule Suc.IH)
  also have "\<dots> = Some \<lparr>shared = v + of_nat (Suc m),
           calls = ds @ map (\<lambda>j. Returned (v + of_nat (Suc j))) [0..<Suc m]\<rparr>"
    by (simp add: map_upt_Suc add.assoc add.commute del: upt_Suc)
  finally show ?case .
qed

lemma sequential_run:
  "run inc_step (sequential_schedule 4 N) (init N)
   = Some \<lparr>shared = \<lparr>mutex = Free, value_int = of_nat N\<rparr>,
           calls = map (\<lambda>j. Returned (of_nat (Suc j))) [0..<N]\<rparr>"
  using run_sequential [of "[]" N 0] by (simp add: sequential_schedule_def init_def del: upt_Suc)

lemma native_sequential_run:
  "run native_inc_step (sequential_schedule 1 N) (native_init N)
   = Some \<lparr>shared = of_nat N, calls = map (\<lambda>j. Returned (of_nat (Suc j))) [0..<N]\<rparr>"
  using native_run_sequential [of "[]" N 0]
  by (simp add: sequential_schedule_def native_init_def del: upt_Suc)

lemma all_returned_final:
  "all_returned \<lparr>shared = c, calls = map (\<lambda>j. Returned (f j)) js\<rparr>"
  by (simp add: all_returned_def list_all_iff)

lemma sequential_outcome:
  assumes "sint (of_nat N :: 32 word) = z"
  shows "(case run inc_step (sequential_schedule 4 N) (init N) of
            None \<Rightarrow> False
          | Some s \<Rightarrow> all_returned s \<and> sint (value_int (shared s)) = z)"
    and "(case run native_inc_step (sequential_schedule 1 N) (native_init N) of
            None \<Rightarrow> False
          | Some s \<Rightarrow> all_returned s \<and> sint (shared s) = z)"
  unfolding sequential_run native_sequential_run
  using assms by (simp_all add: all_returned_final)

section \<open>The claims\<close>

text \<open>
  Claim C1, amended. For every \<open>N < 2 ^ 31\<close>, when \<open>N\<close> calls of the prefix increment
  run concurrently on a shared counter that starts at 0, then from every state an
  interleaving reaches, all calls can still be brought to return (no interleaving
  blocks for good), and in every state where all \<open>N\<close> calls have returned the counter
  holds exactly \<open>N\<close> and the returned values, sorted, are \<open>1, 2, ..., N\<close>. This holds
  for the generic strategy, where the load and the store of the increment are separate
  steps under the mutex, and for the native strategies.
\<close>

theorem concurrent_increments:
  assumes "N < 2 ^ 31"
  shows "(\<forall>sched s. run inc_step sched (init N) = Some s \<longrightarrow>
            (\<exists>sched1 s1. run inc_step sched1 s = Some s1 \<and> all_returned s1)
            \<and> (all_returned s \<longrightarrow>
                 sint (value_int (shared s)) = int N
                 \<and> sort (map sint (returned_values s)) = map int [1..<Suc N]))
       \<and> (\<forall>sched s. run native_inc_step sched (native_init N) = Some s \<longrightarrow>
            (\<exists>sched1 s1. run native_inc_step sched1 s = Some s1 \<and> all_returned s1)
            \<and> (all_returned s \<longrightarrow>
                 sint (shared s) = int N
                 \<and> sort (map sint (returned_values s)) = map int [1..<Suc N]))"
proof (intro conjI allI impI)
  fix sched s
  assume r: "run inc_step sched (init N) = Some s"
  then show "\<exists>sched1 s1. run inc_step sched1 s = Some s1 \<and> all_returned s1"
    by (rule generic_completes)
  assume "all_returned s"
  with r have "value_int (shared s) = of_nat N" and "mset (returned_values s) = first_values N"
    by (rule generic_final)+
  with assms show "sint (value_int (shared s)) = int N"
    and "sort (map sint (returned_values s)) = map int [1..<Suc N]"
    by (simp_all add: sint_of_nat_small sorted_first_values del: upt_Suc)
next
  fix sched s
  assume r: "run native_inc_step sched (native_init N) = Some s"
  then show "\<exists>sched1 s1. run native_inc_step sched1 s = Some s1 \<and> all_returned s1"
    by (rule native_completes)
  assume "all_returned s"
  with r have "shared s = of_nat N" and "mset (returned_values s) = first_values N"
    by (rule native_final)+
  with assms show "sint (shared s) = int N"
    and "sort (map sint (returned_values s)) = map int [1..<Suc N]"
    by (simp_all add: sint_of_nat_small sorted_first_values del: upt_Suc)
qed

theorem concurrent_increments_witness:
  "(2 :: nat) < 2 ^ 31
   \<and> run inc_step [1, 1, 1, 1, 0, 0, 0, 0] (init 2)
       = Some \<lparr>shared = \<lparr>mutex = Free, value_int = 2\<rparr>, calls = [Returned 2, Returned 1]\<rparr>
   \<and> all_returned \<lparr>shared = \<lparr>mutex = Free, value_int = 2\<rparr>, calls = [Returned 2, Returned 1]\<rparr>
   \<and> sort (map sint (returned_values
         \<lparr>shared = \<lparr>mutex = Free, value_int = 2\<rparr>, calls = [Returned 2, Returned 1]\<rparr>)) = [1, 2]
   \<and> run inc_step [1, 0] (init 2) = None
   \<and> run native_inc_step [1, 0] (native_init 2) = Some \<lparr>shared = 2, calls = [Returned 2, Returned 1]\<rparr>"
proof -
  let ?s = "\<lparr>shared = \<lparr>mutex = Free, value_int = 2 :: ValueType\<rparr>, calls = [Returned 2, Returned 1]\<rparr>"
  have two: "(2 :: nat) < 2 ^ 31"
    by simp
  have rep: "replicate 2 Start = [Start, Start]"
    by (simp add: numeral_eq_Suc)
  have r: "run inc_step [1, 1, 1, 1, 0, 0, 0, 0] (init 2) = Some ?s"
    by (simp add: init_def rep sys_step_def ScopedLock_def lock_def ScopedLock_release_def unlock_def)
  have blocked: "run inc_step [1, 0] (init 2) = None"
    by (simp add: init_def rep sys_step_def ScopedLock_def lock_def)
  have n: "run native_inc_step [1, 0] (native_init 2) = Some \<lparr>shared = 2, calls = [Returned 2, Returned 1]\<rparr>"
    by (simp add: native_init_def rep sys_step_def InterlockedIncrement_def)
  have a: "all_returned ?s"
    by (simp add: all_returned_def)
  from concurrent_increments [OF two] r a
  have "sort (map sint (returned_values ?s)) = map int [1..<Suc 2]"
    by blast
  moreover have "map int [1..<Suc 2] = [1, 2]"
    by (simp add: numeral_eq_Suc upt_rec)
  ultimately show ?thesis
    using two r a blocked n by simp
qed

text \<open>
  Claim C1 as stated, for every \<open>N\<close>, fails at \<open>N = 2 ^ 31\<close>: the counter is 32 bits
  wide. When \<open>2 ^ 31\<close> calls run one after another from 0, all of them return and the
  counter holds \<open>- 2 ^ 31\<close>, not \<open>2 ^ 31\<close>.
\<close>

theorem concurrent_increments_counterexample:
  "(case run inc_step (sequential_schedule 4 2147483648) (init 2147483648) of
      None \<Rightarrow> False
    | Some s \<Rightarrow> all_returned s \<and> sint (value_int (shared s)) = - 2147483648)
   \<and> (case run native_inc_step (sequential_schedule 1 2147483648) (native_init 2147483648) of
      None \<Rightarrow> False
    | Some s \<Rightarrow> all_returned s \<and> sint (shared s) = - 2147483648)"
proof -
  have "sint (of_nat 2147483648 :: 32 word) = - 2147483648"
    by simp
  then show ?thesis
    by (intro conjI sequential_outcome)
qed

text \<open>
  Claim C2. For a counter whose current value is \<open>v\<close>, the postfix increment returns
  \<open>v\<close> and leaves the counter at \<open>v + 1\<close>; the prefix increment returns \<open>v + 1\<close> and
  leaves the counter at \<open>v + 1\<close>. This holds for the generic strategy, called while the
  mutex is free, and for the native strategies. The sum \<open>v + 1\<close> is the sum of the
  counter's 32-bit type; read as an integer it is the integer \<open>v + 1\<close> for every \<open>v\<close>
  below the largest value.
\<close>

theorem increment_forms:
  assumes "mutex c = Free" and "value_int c = v"
  shows "operator_inc_post c = Some (v, c\<lparr>value_int := v + 1\<rparr>)
       \<and> operator_inc c = Some (v + 1, c\<lparr>value_int := v + 1\<rparr>)
       \<and> native_operator_inc_post v = (v, v + 1)
       \<and> native_operator_inc v = (v + 1, v + 1)
       \<and> (sint v < 2 ^ 31 - 1 \<longrightarrow> sint (v + 1) = sint v + 1)"
  using assms by (simp add: generic_ops native_ops sint_inc_small)

theorem increment_forms_witness:
  "operator_inc_post \<lparr>mutex = Free, value_int = 5\<rparr> = Some (5, \<lparr>mutex = Free, value_int = 6\<rparr>)
   \<and> value_get \<lparr>mutex = Free, value_int = 6\<rparr> = Some (6, \<lparr>mutex = Free, value_int = 6\<rparr>)
   \<and> operator_inc \<lparr>mutex = Free, value_int = 6\<rparr> = Some (7, \<lparr>mutex = Free, value_int = 7\<rparr>)
   \<and> sint (5 :: 32 word) < 2 ^ 31 - 1 \<and> sint (5 + 1 :: 32 word) = 6"
  using increment_forms [of "\<lparr>mutex = Free, value_int = 5\<rparr>" 5]
    increment_forms [of "\<lparr>mutex = Free, value_int = 6\<rparr>" 6]
  by (simp add: generic_ops)

text \<open>
  Claim C3. For a counter whose current value is \<open>v\<close>, the postfix decrement returns
  \<open>v\<close> and leaves the counter at \<open>v - 1\<close>; the prefix decrement returns \<open>v - 1\<close> and
  leaves the counter at \<open>v - 1\<close>, in the generic strategy, called while the mutex is
  free, and in the native strategies. The difference \<open>v - 1\<close> is the difference of the
  counter's 32-bit type; read as an integer it is the integer \<open>v - 1\<close> for every \<open>v\<close>
  above the smallest value.
\<close>

theorem decrement_forms:
  assumes "mutex c = Free" and "value_int c = v"
  shows "operator_dec_post c = Some (v, c\<lparr>value_int := v - 1\<rparr>)
       \<and> operator_dec c = Some (v - 1, c\<lparr>value_int := v - 1\<rparr>)
       \<and> native_operator_dec_post v = (v, v - 1)
       \<and> native_operator_dec v = (v - 1, v - 1)
       \<and> (- (2 ^ 31) < sint v \<longrightarrow> sint (v - 1) = sint v - 1)"
  using assms by (simp add: generic_ops native_ops sint_dec_small)

theorem decrement_forms_witness:
  "operator_dec_post \<lparr>mutex = Free, value_int = 5\<rparr> = Some (5, \<lparr>mutex = Free, value_int = 4\<rparr>)
   \<and> value_get \<lparr>mutex = Free, value_int = 4\<rparr> = Some (4, \<lparr>mutex = Free, value_int = 4\<rparr>)
   \<and> operator_dec \<lparr>mutex = Free, value_int = 4\<rparr> = Some (3, \<lparr>mutex = Free, value_int = 3\<rparr>)
   \<and> - (2 ^ 31) < sint (5 :: 32 word) \<and> sint (5 - 1 :: 32 word) = 4"
  using decrement_forms [of "\<lparr>mutex = Free, value_int = 5\<rparr>" 5]
    decrement_forms [of "\<lparr>mutex = Free, value_int = 4\<rparr>" 4]
  by (simp add: generic_ops)

text \<open>
  Claim C4. A counter constructed with the initial value \<open>v\<close> reads back \<open>v\<close>, by
  \<^verbatim>\<open>value()\<close> and by the conversion operator, and a default-constructed counter reads
  back 0. Every integer \<open>i\<close> of the representable range \<open>- 2 ^ 31 \<le> i < 2 ^ 31\<close> is
  read back as itself.
\<close>

theorem construct_read:
  "value_get (AtomicCounter_init v) = Some (v, AtomicCounter_init v)
   \<and> operator_ValueType (AtomicCounter_init v) = Some (v, AtomicCounter_init v)
   \<and> value_get AtomicCounter_default = Some (0, AtomicCounter_default)
   \<and> operator_ValueType AtomicCounter_default = Some (0, AtomicCounter_default)
   \<and> (- (2 ^ 31) \<le> i \<and> i < 2 ^ 31 \<longrightarrow>
        map_option (sint \<circ> fst) (value_get (AtomicCounter_init (word_of_int i))) = Some i)"
proof -
  have free: "mutex (AtomicCounter_init w) = Free" "value_int (AtomicCounter_init w) = w" for w
    by (simp_all add: AtomicCounter_init_def)
  have dflt: "mutex AtomicCounter_default = Free" "value_int AtomicCounter_default = 0"
    by (simp_all add: AtomicCounter_default_def)
  show ?thesis
    by (simp add: generic_ops free dflt sint_of_int_range)
qed

theorem construct_read_witness:
  "value_get (AtomicCounter_init 42) = Some (42, AtomicCounter_init 42)
   \<and> map_option (sint \<circ> fst) (value_get (AtomicCounter_init (word_of_int (- 7)))) = Some (- 7)"
  using construct_read [of 42 "- 7"] construct_read [of "word_of_int (- 7)" "- 7"]
  by simp

text \<open>
  Claim C5. \<^verbatim>\<open>operator !\<close> returns true if and only if the counter's current value is 0,
  and leaves the counter as it was.
\<close>

theorem isZero_iff:
  assumes "mutex c = Free"
  shows "operator_not c = Some (value_int c = 0, c)
       \<and> native_operator_not v = (v = 0, v)"
  using assms by (simp add: generic_ops native_ops)

theorem isZero_iff_witness:
  "operator_not AtomicCounter_default = Some (True, AtomicCounter_default)
   \<and> operator_inc AtomicCounter_default = Some (1, AtomicCounter_init 1)
   \<and> operator_not (AtomicCounter_init 1) = Some (False, AtomicCounter_init 1)
   \<and> operator_dec (AtomicCounter_init 1) = Some (0, AtomicCounter_default)
   \<and> operator_not AtomicCounter_default = Some (True, AtomicCounter_default)"
  using isZero_iff [of AtomicCounter_default] isZero_iff [of "AtomicCounter_init 1"]
  by (simp add: generic_ops AtomicCounter_default_def AtomicCounter_init_def)

text \<open>
  Claim C6. Increment and decrement wrap around: from the value \<open>v\<close>, read as a signed
  integer, the increments leave \<open>wrap32 (v + 1)\<close> and the decrements \<open>wrap32 (v - 1)\<close>,
  and the prefix forms return that value. At the largest value \<open>2 ^ 31 - 1\<close> the
  increment leaves the smallest, \<open>- 2 ^ 31\<close>, and at the smallest the decrement leaves
  the largest. The call returns in every case: there is no guard and no error.
\<close>

theorem wraparound:
  assumes "mutex c = Free" and "value_int c = v"
  shows "map_option (sint \<circ> value_int \<circ> snd) (operator_inc c) = Some (wrap32 (sint v + 1))
       \<and> map_option (sint \<circ> value_int \<circ> snd) (operator_inc_post c) = Some (wrap32 (sint v + 1))
       \<and> map_option (sint \<circ> value_int \<circ> snd) (operator_dec c) = Some (wrap32 (sint v - 1))
       \<and> map_option (sint \<circ> value_int \<circ> snd) (operator_dec_post c) = Some (wrap32 (sint v - 1))
       \<and> map_option (sint \<circ> fst) (operator_inc c) = Some (wrap32 (sint v + 1))
       \<and> map_option (sint \<circ> fst) (operator_dec c) = Some (wrap32 (sint v - 1))
       \<and> sint (snd (native_operator_inc v)) = wrap32 (sint v + 1)
       \<and> sint (snd (native_operator_inc_post v)) = wrap32 (sint v + 1)
       \<and> sint (snd (native_operator_dec v)) = wrap32 (sint v - 1)
       \<and> sint (snd (native_operator_dec_post v)) = wrap32 (sint v - 1)
       \<and> (sint v = 2 ^ 31 - 1 \<longrightarrow>
            map_option (sint \<circ> value_int \<circ> snd) (operator_inc_post c) = Some (- (2 ^ 31)))
       \<and> (sint v = - (2 ^ 31) \<longrightarrow>
            map_option (sint \<circ> value_int \<circ> snd) (operator_dec_post c) = Some (2 ^ 31 - 1))"
  using assms by (simp add: generic_ops native_ops sint_inc sint_dec) (simp add: wrap32_def)

theorem wraparound_witness:
  "sint (2147483647 :: 32 word) = 2 ^ 31 - 1
   \<and> operator_inc_post \<lparr>mutex = Free, value_int = 2147483647\<rparr>
       = Some (2147483647, \<lparr>mutex = Free, value_int = 2147483648\<rparr>)
   \<and> sint (2147483648 :: 32 word) = - (2 ^ 31)
   \<and> map_option (sint \<circ> value_int \<circ> snd) (operator_inc_post \<lparr>mutex = Free, value_int = 2147483647\<rparr>)
       = Some (- (2 ^ 31))
   \<and> map_option (sint \<circ> value_int \<circ> snd) (operator_dec_post \<lparr>mutex = Free, value_int = 2147483648\<rparr>)
       = Some (2 ^ 31 - 1)"
  using wraparound [of "\<lparr>mutex = Free, value_int = 2147483647\<rparr>" 2147483647]
    wraparound [of "\<lparr>mutex = Free, value_int = 2147483648\<rparr>" 2147483648]
  by (simp add: generic_ops)

text \<open>
  Claim C7. Copy construction takes a snapshot. When the counter at address \<open>a\<close> has
  the value \<open>v\<close> and a counter is copy-constructed from it at a fresh address \<open>b\<close>, the
  counter at \<open>b\<close> reads \<open>v\<close>; after an increment of the counter at \<open>a\<close>, which then
  reads \<open>v + 1\<close>, the counter at \<open>b\<close> still reads \<open>v\<close>; and whatever member function
  is called on the counter at \<open>a\<close>, the counter at \<open>b\<close> reads \<open>v\<close> afterwards.
\<close>

theorem copy_snapshot:
  assumes "st a = Some ca" and "mutex ca = Free" and "value_int ca = v" and "st b = None"
  shows "\<exists>st1. copy_construct_at b a st = Some st1
           \<and> at_object value_get b st1 = Some (v, st1)
           \<and> (\<exists>st2. at_object operator_inc a st1 = Some (v + 1, st2)
                 \<and> at_object value_get a st2 = Some (v + 1, st2)
                 \<and> at_object value_get b st2 = Some (v, st2))
           \<and> (\<forall>(f :: AtomicCounter \<Rightarrow> ('r \<times> AtomicCounter) option) r st2. at_object f a st1 = Some (r, st2) \<longrightarrow>
                 at_object value_get b st2 = Some (v, st2))"
proof -
  from assms have ab: "b \<noteq> a" by auto
  define st1 where "st1 = st(b \<mapsto> AtomicCounter_init v)"
  have copy: "AtomicCounter_copy ca = Some (AtomicCounter_init v, ca)"
    using assms by (simp add: AtomicCounter_copy_def generic_ops)
  have upd: "st(a \<mapsto> ca) = st"
    using assms(1) by (simp add: fun_upd_idem)
  have c1: "copy_construct_at b a st = Some st1"
    using assms copy upd by (simp add: copy_construct_at_def at_object_def st1_def)
  have st1b: "st1 b = Some (AtomicCounter_init v)" and st1a: "st1 a = Some ca"
    using assms ab by (simp_all add: st1_def)
  have init: "mutex (AtomicCounter_init v) = Free" "value_int (AtomicCounter_init v) = v"
    by (simp_all add: AtomicCounter_init_def)
  have readb: "at_object value_get b s = Some (v, s)" if "s b = Some (AtomicCounter_init v)" for s
    using that by (simp add: at_object_def generic_ops init fun_upd_idem)
  define st2 where "st2 = st1(a \<mapsto> ca\<lparr>value_int := v + 1\<rparr>)"
  have inc: "at_object operator_inc a st1 = Some (v + 1, st2)"
    using st1a assms by (simp add: at_object_def generic_ops st2_def)
  have reada: "at_object value_get a st2 = Some (v + 1, st2)"
    using assms by (simp add: at_object_def generic_ops st2_def)
  have st2b: "st2 b = Some (AtomicCounter_init v)"
    using st1b ab by (simp add: st2_def)
  have frame: "at_object value_get b s2 = Some (v, s2)"
    if "at_object f a st1 = Some (r, s2)" for f :: "AtomicCounter \<Rightarrow> ('r \<times> AtomicCounter) option" and r s2
    using at_object_frame [OF that ab] st1b by (simp add: readb)
  have second: "\<exists>st2. at_object operator_inc a st1 = Some (v + 1, st2)
                 \<and> at_object value_get a st2 = Some (v + 1, st2)
                 \<and> at_object value_get b st2 = Some (v, st2)"
    using inc reada readb [of st2, OF st2b] by (intro exI conjI)
  have third: "\<forall>(f :: AtomicCounter \<Rightarrow> ('r \<times> AtomicCounter) option) r st2. at_object f a st1 = Some (r, st2) \<longrightarrow>
                 at_object value_get b st2 = Some (v, st2)"
    using frame by (intro allI impI)
  show ?thesis
  proof (rule exI [of _ st1], intro conjI)
    show "copy_construct_at b a st = Some st1" by (rule c1)
    show "at_object value_get b st1 = Some (v, st1)" by (rule readb [of st1, OF st1b])
    show "\<exists>st2. at_object operator_inc a st1 = Some (v + 1, st2)
                 \<and> at_object value_get a st2 = Some (v + 1, st2)
                 \<and> at_object value_get b st2 = Some (v, st2)" by (rule second)
    show "\<forall>(f :: AtomicCounter \<Rightarrow> ('r \<times> AtomicCounter) option) r st2. at_object f a st1 = Some (r, st2) \<longrightarrow>
                 at_object value_get b st2 = Some (v, st2)" by (rule third)
  qed
qed

theorem copy_snapshot_witness:
  "copy_construct_at 1 0 [0 \<mapsto> AtomicCounter_init 10]
     = Some [0 \<mapsto> AtomicCounter_init 10, 1 \<mapsto> AtomicCounter_init 10]
   \<and> map_option fst (at_object value_get 1 [0 \<mapsto> AtomicCounter_init 10, 1 \<mapsto> AtomicCounter_init 10])
     = Some 10
   \<and> (case at_object operator_inc 0 [0 \<mapsto> AtomicCounter_init 10, 1 \<mapsto> AtomicCounter_init 10] of
         None \<Rightarrow> False
       | Some (r, st2) \<Rightarrow>
           r = 11 \<and> map_option fst (at_object value_get 0 st2) = Some 11
                  \<and> map_option fst (at_object value_get 1 st2) = Some 10)"
proof -
  let ?st = "[0 \<mapsto> AtomicCounter_init 10] :: store"
  have h: "?st 0 = Some (AtomicCounter_init 10)" "mutex (AtomicCounter_init 10) = Free"
    "value_int (AtomicCounter_init 10) = 10" "?st 1 = None"
    by (simp_all add: AtomicCounter_init_def)
  have copy: "copy_construct_at 1 0 ?st
      = Some [0 \<mapsto> AtomicCounter_init 10, 1 \<mapsto> AtomicCounter_init 10]"
    by (simp add: copy_construct_at_def at_object_def AtomicCounter_copy_def generic_ops h)
  from copy_snapshot [of ?st 0 "AtomicCounter_init 10" 10 1, OF h] copy
  have "at_object value_get 1 [0 \<mapsto> AtomicCounter_init 10, 1 \<mapsto> AtomicCounter_init 10]
          = Some (10, [0 \<mapsto> AtomicCounter_init 10, 1 \<mapsto> AtomicCounter_init 10])"
    and "\<exists>st2. at_object operator_inc 0 [0 \<mapsto> AtomicCounter_init 10, 1 \<mapsto> AtomicCounter_init 10]
            = Some (10 + 1, st2)
          \<and> at_object value_get 0 st2 = Some (10 + 1, st2)
          \<and> at_object value_get 1 st2 = Some (10, st2)"
    by auto
  with copy show ?thesis
    by auto
qed

text \<open>
  Claim C8. Every operation completes normally. Called on a counter whose mutex is
  free, each operation of the generic strategy returns a result, for every stored value
  and every argument, and leaves the mutex free for the next call; construction gives
  a counter whose mutex is free. No operation has an error result.
\<close>

theorem operations_complete:
  assumes "mutex c = Free" and "mutex other = Free"
  shows "(\<exists>r c1. operator_ValueType c = Some (r, c1) \<and> mutex c1 = Free)
       \<and> (\<exists>r c1. value_get c = Some (r, c1) \<and> mutex c1 = Free)
       \<and> (\<exists>r c1. operator_inc c = Some (r, c1) \<and> mutex c1 = Free)
       \<and> (\<exists>r c1. operator_inc_post c = Some (r, c1) \<and> mutex c1 = Free)
       \<and> (\<exists>r c1. operator_dec c = Some (r, c1) \<and> mutex c1 = Free)
       \<and> (\<exists>r c1. operator_dec_post c = Some (r, c1) \<and> mutex c1 = Free)
       \<and> (\<exists>r c1. operator_not c = Some (r, c1) \<and> mutex c1 = Free)
       \<and> (\<exists>c1. assign_value v c = Some c1 \<and> mutex c1 = Free)
       \<and> (\<exists>c1 other1. assign_counter other c = Some (c1, other1) \<and> mutex c1 = Free \<and> mutex other1 = Free)
       \<and> (\<exists>c1 other1. AtomicCounter_copy other = Some (c1, other1) \<and> mutex c1 = Free \<and> mutex other1 = Free)
       \<and> mutex (AtomicCounter_init v) = Free
       \<and> mutex AtomicCounter_default = Free"
  using assms
  by (simp add: generic_ops assign_counter_def AtomicCounter_copy_def AtomicCounter_init_def
      AtomicCounter_default_def)

theorem operations_complete_witness:
  "operator_inc (AtomicCounter_init 2147483647) = Some (2147483648, AtomicCounter_init 2147483648)
   \<and> operator_dec (AtomicCounter_init 2147483648) = Some (2147483647, AtomicCounter_init 2147483647)
   \<and> assign_counter (AtomicCounter_init 3) AtomicCounter_default
        = Some (AtomicCounter_init 3, AtomicCounter_init 3)"
  using operations_complete [of "AtomicCounter_init 2147483647" "AtomicCounter_init 3" 0]
    operations_complete [of "AtomicCounter_default" "AtomicCounter_init 3" 0]
  by (simp add: generic_ops assign_counter_def AtomicCounter_init_def AtomicCounter_default_def)

text \<open>
  Claim C9. The accessor \<^verbatim>\<open>value()\<close> and the conversion operator to \<^verbatim>\<open>ValueType\<close> are
  equivalent: on every counter they give the same result and the same counter
  afterwards, and called while the mutex is free both return the stored value and
  leave the counter as it was.
\<close>

theorem read_equivalent:
  "operator_ValueType c = value_get c
   \<and> (mutex c = Free \<longrightarrow> value_get c = Some (value_int c, c))
   \<and> native_operator_ValueType v = native_value_get v
   \<and> native_value_get v = (v, v)"
proof -
  have "operator_ValueType c = value_get c"
    by (simp add: operator_ValueType_def value_get_def)
  then show ?thesis
    by (simp add: generic_ops native_ops)
qed

theorem read_equivalent_witness:
  "operator_ValueType \<lparr>mutex = Free, value_int = 9\<rparr> = Some (9, \<lparr>mutex = Free, value_int = 9\<rparr>)
   \<and> value_get \<lparr>mutex = Free, value_int = 9\<rparr> = Some (9, \<lparr>mutex = Free, value_int = 9\<rparr>)"
  using read_equivalent [of "\<lparr>mutex = Free, value_int = 9\<rparr>"]
  by simp

text \<open>
  Claim C10. The read-only operations, \<^verbatim>\<open>value()\<close>, the conversion operator and
  \<^verbatim>\<open>operator !\<close>, leave the counter unchanged: the counter after the call, its mutex
  included, equals the counter before the call.
\<close>

theorem read_only_frame:
  assumes "mutex c = Free"
  shows "(\<exists>r. value_get c = Some (r, c))
       \<and> (\<exists>r. operator_ValueType c = Some (r, c))
       \<and> (\<exists>r. operator_not c = Some (r, c))
       \<and> snd (native_value_get v) = v
       \<and> snd (native_operator_ValueType v) = v
       \<and> snd (native_operator_not v) = v"
  using assms by (simp add: generic_ops native_ops)

theorem read_only_frame_witness:
  "value_get \<lparr>mutex = Free, value_int = 4\<rparr> = Some (4, \<lparr>mutex = Free, value_int = 4\<rparr>)
   \<and> operator_not \<lparr>mutex = Free, value_int = 4\<rparr> = Some (False, \<lparr>mutex = Free, value_int = 4\<rparr>)"
  using read_only_frame [of "\<lparr>mutex = Free, value_int = 4\<rparr>"]
  by (simp add: generic_ops)

end
